theory Spec2Isabelle
  imports Main
begin

section \<open>txtoml: Poetry version constraints to pip requirement specifiers\<close>

text \<open>
  The development embeds \<^verbatim>\<open>constrain\<close> and its inner function \<^verbatim>\<open>caret\<close> of
  \<^verbatim>\<open>src/txtoml/txtoml.py\<close>. Python strings are modelled as \<^typ>\<open>string\<close> and are
  read as ASCII text: the pattern \<^verbatim>\<open>\d\<close> is taken to match the ten characters
  \<^verbatim>\<open>0\<close> to \<^verbatim>\<open>9\<close>. Python integers are \<^typ>\<open>int\<close>. A dictionary is an
  association list in insertion order; the values of the input dictionary are strings.
  The conversions \<^verbatim>\<open>int\<close> and \<^verbatim>\<open>str\<close> are those of the language, without a limit
  on the number of digits. The only exception the two functions can raise on such input
  is the \<^verbatim>\<open>IndexError\<close> of \<^verbatim>\<open>numbers[-1]\<close> on an empty list.
\<close>

subsection \<open>Python library functions used by the source\<close>

datatype error = IndexError

text \<open>\<^verbatim>\<open>s.startswith(p)\<close>\<close>

definition startswith :: "string \<Rightarrow> string \<Rightarrow> bool" where
  "startswith s p = (take (length p) s = p)"

text \<open>\<^verbatim>\<open>s.lstrip(chars)\<close>: drops every leading character that occurs in \<^verbatim>\<open>chars\<close>.\<close>

definition lstrip :: "string \<Rightarrow> string \<Rightarrow> string" where
  "lstrip s chars = dropWhile (\<lambda>c. c \<in> set chars) s"

text \<open>\<^verbatim>\<open>s.count(".")\<close> for a pattern of one character.\<close>

definition count_char :: "string \<Rightarrow> char \<Rightarrow> int" where
  "count_char s c = int (count_list s c)"

text \<open>\<^verbatim>\<open>s * n\<close>: the empty string when \<^verbatim>\<open>n\<close> is zero or negative.\<close>

definition str_times :: "string \<Rightarrow> int \<Rightarrow> string" where
  "str_times s n = concat (replicate (nat n) s)"

text \<open>
  \<^verbatim>\<open>s.replace(old, new)\<close>: a scan from the left that replaces each occurrence of
  \<^verbatim>\<open>old\<close> and continues behind it. With an empty \<^verbatim>\<open>old\<close> Python puts
  \<^verbatim>\<open>new\<close> before every character and at the end.
\<close>

function replace :: "string \<Rightarrow> string \<Rightarrow> string \<Rightarrow> string" where
  "replace old new [] = (if old = [] then new else [])"
| "replace old new (c # cs) =
     (if old = [] then new @ c # replace old new cs
      else if startswith (c # cs) old then new @ replace old new (drop (length old) (c # cs))
      else c # replace old new cs)"
  by pat_completeness auto
termination
  by (relation "measure (\<lambda>(old, new, s). length s)") auto

text \<open>\<^verbatim>\<open>sep.join(xs)\<close>\<close>

fun join :: "string \<Rightarrow> string list \<Rightarrow> string" where
  "join sep [] = []"
| "join sep [x] = x"
| "join sep (x # y # ys) = x @ sep @ join sep (y # ys)"

text \<open>\<^verbatim>\<open>re.findall("\d+", s)\<close>: the maximal runs of digits of \<^verbatim>\<open>s\<close>, from the left.\<close>

definition is_digit :: "char \<Rightarrow> bool" where
  "is_digit c = (c \<in> set ''0123456789'')"

function findall_digits :: "string \<Rightarrow> string list" where
  "findall_digits [] = []"
| "findall_digits (c # cs) =
     (if is_digit c
      then (c # takeWhile is_digit cs) # findall_digits (dropWhile is_digit cs)
      else findall_digits cs)"
  by pat_completeness auto
termination
  by (relation "measure length") (auto simp: length_dropWhile_le less_Suc_eq_le)

text \<open>
  \<^verbatim>\<open>int(s)\<close> on a run of digits, which is all the source applies it to: the value in
  base ten, leading zeros allowed.
\<close>

definition digit_val :: "char \<Rightarrow> nat" where
  "digit_val c = of_char c - 48"

definition int_of_digits :: "string \<Rightarrow> int" where
  "int_of_digits s = int (foldl (\<lambda>a c. 10 * a + digit_val c) 0 s)"

text \<open>\<^verbatim>\<open>str(i)\<close> on an integer.\<close>

definition digit_char :: "nat \<Rightarrow> char" where
  "digit_char d = ''0123456789'' ! d"

function str_nat :: "nat \<Rightarrow> string" where
  "str_nat n = (if n < 10 then [digit_char n] else str_nat (n div 10) @ [digit_char (n mod 10)])"
  by pat_completeness auto
termination
  by (relation "measure id") auto

declare str_nat.simps [simp del]

definition str :: "int \<Rightarrow> string" where
  "str i = (if i < 0 then CHR ''-'' # str_nat (nat (- i)) else str_nat (nat i))"

text \<open>
  \<^verbatim>\<open>d[k] = v\<close> on a dictionary: an existing key keeps its place and takes the new
  value, a new key goes to the end.
\<close>

fun dict_set :: "(string \<times> string) list \<Rightarrow> string \<Rightarrow> string \<Rightarrow> (string \<times> string) list" where
  "dict_set [] k v = [(k, v)]"
| "dict_set ((k', v') # d) k v = (if k' = k then (k, v) # d else (k', v') # dict_set d k v)"

subsection \<open>The function \<^verbatim>\<open>caret\<close>\<close>

text \<open>Line 30: the version without its carets, padded with \<^verbatim>\<open>.0\<close>.\<close>

definition lower_bound :: "string \<Rightarrow> string" where
  "lower_bound version = version @ str_times ''.0'' (2 - count_char version CHR ''.'')"

text \<open>Line 32: the integers found in the lower bound.\<close>

definition numbers :: "string \<Rightarrow> int list" where
  "numbers lb = map int_of_digits (findall_digits lb)"

text \<open>
  Lines 34 to 40: the loop over \<^verbatim>\<open>enumerate(numbers)\<close>, here from position
  \<open>index\<close> on. At the first positive number the loop adds one to it, sets every later
  position to zero and stops; when it runs to the end, the \<^verbatim>\<open>else\<close> branch adds
  one to \<^verbatim>\<open>numbers[-1]\<close>, which raises on the empty list.
\<close>

definition zero_after :: "nat \<Rightarrow> int list \<Rightarrow> int list" where
  "zero_after index ns = map (\<lambda>(i, n). if i > index then 0 else n) (enumerate 0 ns)"

function bump :: "nat \<Rightarrow> int list \<Rightarrow> error + int list" where
  "bump index ns =
     (if index < length ns
      then (if ns ! index > 0
            then Inr (zero_after index (ns[index := ns ! index + 1]))
            else bump (Suc index) ns)
      else (if ns = [] then Inl IndexError
            else Inr (ns[length ns - 1 := ns ! (length ns - 1) + 1])))"
  by pat_completeness auto
termination
  by (relation "measure (\<lambda>(index, ns). length ns - index)") auto

declare bump.simps [simp del]

text \<open>Line 42.\<close>

definition upper_bound :: "int list \<Rightarrow> string" where
  "upper_bound ns = join ''.'' (map str ns)"

definition caret :: "string \<Rightarrow> error + string" where
  "caret v =
     (let version = lstrip v ''^'';
          lb = lower_bound version
      in case bump 0 (numbers lb) of
           Inl e \<Rightarrow> Inl e
         | Inr ns \<Rightarrow> Inr (''>='' @ lb @ '', <'' @ upper_bound ns))"

subsection \<open>The function \<^verbatim>\<open>constrain\<close>\<close>

text \<open>Lines 50 to 55: the constraint of one entry.\<close>

definition constraint_of :: "string \<Rightarrow> error + string" where
  "constraint_of version =
     (if startswith version ''^'' then caret version
      else if startswith version ''~'' then Inr (replace ''~'' ''~='' version)
      else Inr (''=='' @ version))"

text \<open>
  Lines 48 to 57: the loop over \<^verbatim>\<open>dependencies.items()\<close>, with the dictionary
  \<^verbatim>\<open>constrained_packages\<close> built so far. An exception ends the loop.
\<close>

fun constrain_loop ::
  "(string \<times> string) list \<Rightarrow> (string \<times> string) list \<Rightarrow> error + (string \<times> string) list" where
  "constrain_loop [] constrained_packages = Inr constrained_packages"
| "constrain_loop ((package, version) # rest) constrained_packages =
     (if package \<noteq> ''python''
      then (case constraint_of version of
              Inl e \<Rightarrow> Inl e
            | Inr constraint \<Rightarrow>
                constrain_loop rest (dict_set constrained_packages package constraint))
      else constrain_loop rest constrained_packages)"

definition constrain :: "(string \<times> string) list \<Rightarrow> error + (string \<times> string) list" where
  "constrain dependencies = constrain_loop dependencies []"

subsection \<open>The run of \<^verbatim>\<open>constrain\<close> as a relation\<close>

text \<open>
  The same loop as a big-step relation: \<open>entry_step\<close> is one pass through the body
  of the \<^verbatim>\<open>for\<close> loop (lines 49 to 57), \<open>constrain_run\<close> the passes one after
  another, from the dictionary built so far to the outcome of the call.
\<close>

inductive entry_step ::
  "string \<times> string \<Rightarrow> (string \<times> string) list \<Rightarrow> error + (string \<times> string) list \<Rightarrow> bool" where
  skip: "package = ''python'' \<Longrightarrow> entry_step (package, version) acc (Inr acc)"
| store: "package \<noteq> ''python'' \<Longrightarrow> constraint_of version = Inr c \<Longrightarrow>
     entry_step (package, version) acc (Inr (dict_set acc package c))"
| raise: "package \<noteq> ''python'' \<Longrightarrow> constraint_of version = Inl e \<Longrightarrow>
     entry_step (package, version) acc (Inl e)"

inductive constrain_run ::
  "(string \<times> string) list \<Rightarrow> (string \<times> string) list \<Rightarrow> error + (string \<times> string) list \<Rightarrow> bool" where
  finished: "constrain_run [] acc (Inr acc)"
| continue: "entry_step entry acc (Inr acc') \<Longrightarrow> constrain_run rest acc' r \<Longrightarrow>
     constrain_run (entry # rest) acc r"
| abort: "entry_step entry acc (Inl e) \<Longrightarrow> constrain_run (entry # rest) acc (Inl e)"

code_pred entry_step .

code_pred constrain_run .

subsection \<open>The vocabulary of the specification\<close>

text \<open>
  The definitions of this subsection follow the words of the specification, not the
  source. The dot-separated components of a string are what \<^verbatim>\<open>s.split(".")\<close>
  returns.
\<close>

fun split_on :: "char \<Rightarrow> string \<Rightarrow> string list" where
  "split_on sep [] = [[]]"
| "split_on sep (c # cs) =
     (if c = sep then [] # split_on sep cs
      else (c # hd (split_on sep cs)) # tl (split_on sep cs))"

text \<open>A non-negative integer: one digit or more.\<close>

definition is_number :: "string \<Rightarrow> bool" where
  "is_number s = (s \<noteq> [] \<and> list_all is_digit s)"

text \<open>One to three dot-separated non-negative integers.\<close>

definition valid_body :: "string \<Rightarrow> bool" where
  "valid_body b =
     (length (split_on CHR ''.'' b) \<le> 3 \<and> list_all is_number (split_on CHR ''.'' b))"

text \<open>The caret form and the tilde form of a version constraint.\<close>

definition valid_caret :: "string \<Rightarrow> bool" where
  "valid_caret v = (case v of [] \<Rightarrow> False | c # b \<Rightarrow> c = CHR ''^'' \<and> valid_body b)"

definition valid_tilde :: "string \<Rightarrow> bool" where
  "valid_tilde v = (case v of [] \<Rightarrow> False | c # b \<Rightarrow> c = CHR ''~'' \<and> valid_body b)"

text \<open>
  A version constraint of the data model: the caret form, the tilde form, or a string
  without sigil.
\<close>

definition version_constraint :: "string \<Rightarrow> bool" where
  "version_constraint v =
     (valid_caret v \<or> valid_tilde v \<or> (\<not> startswith v ''^'' \<and> \<not> startswith v ''~''))"

text \<open>The components of a dotted version string, as integers.\<close>

definition version_components :: "string \<Rightarrow> int list" where
  "version_components s = map int_of_digits (split_on CHR ''.'' s)"

text \<open>
  Step 4 of the caret expansion as the specification words it: with \<open>k\<close> the index of
  the leftmost non-zero component, the components left of \<open>k\<close> stay, the one at \<open>k\<close>
  grows by one and those right of \<open>k\<close> become zero; without such a component the one
  at index 2 grows by one.
\<close>

definition leftmost_nonzero :: "int list \<Rightarrow> nat option" where
  "leftmost_nonzero ns =
     (case filter (\<lambda>k. ns ! k \<noteq> 0) [0..<length ns] of [] \<Rightarrow> None | k # _ \<Rightarrow> Some k)"

definition spec_upper_bound :: "int list \<Rightarrow> int list" where
  "spec_upper_bound ns =
     (case leftmost_nonzero ns of
        Some k \<Rightarrow>
          map (\<lambda>i. if i < k then ns ! i else if i = k then ns ! k + 1 else 0) [0..<length ns]
      | None \<Rightarrow> ns[2 := ns ! 2 + 1])"

section \<open>Lemmas\<close>

subsection \<open>Strings and dictionaries\<close>

lemma replace_single:
  "replace [a] new s = concat (map (\<lambda>c. if c = a then new else [c]) s)"
  by (induction s) (simp_all add: startswith_def)

lemma replace_absent:
  "a \<notin> set s \<Longrightarrow> replace [a] new s = s"
  by (induction s) (auto simp: startswith_def)

lemma dict_set_fresh:
  "k \<notin> fst ` set d \<Longrightarrow> dict_set d k v = d @ [(k, v)]"
  by (induction d k v rule: dict_set.induct) auto

lemma dict_set_keys:
  "fst ` set (dict_set d k v) = insert k (fst ` set d)"
  by (induction d k v rule: dict_set.induct) auto

lemma constrain_loop_skip_python:
  "constrain_loop (filter (\<lambda>(k, v). k \<noteq> ''python'') deps) acc = constrain_loop deps acc"
  by (induction deps acc rule: constrain_loop.induct) (auto split: sum.splits)

lemma constrain_loop_keys_subset:
  "constrain_loop deps acc = Inr out \<Longrightarrow>
   fst ` set out = fst ` set acc \<union> (fst ` set deps - {''python''})"
proof (induction deps acc arbitrary: out rule: constrain_loop.induct)
  case (1 acc)
  then show ?case by simp
next
  case (2 package version rest acc)
  show ?case
  proof (cases "package = ''python''")
    case True
    with 2 show ?thesis by auto
  next
    case False
    with "2.prems" obtain c where c: "constraint_of version = Inr c"
      and r: "constrain_loop rest (dict_set acc package c) = Inr out"
      by (auto split: sum.splits)
    from "2.IH"(1)[OF False c r] False show ?thesis
      by (auto simp: dict_set_keys)
  qed
qed

lemma constrain_loop_closed_form:
  "distinct (map fst acc @ filter (\<lambda>k. k \<noteq> ''python'') (map fst deps)) \<Longrightarrow>
   constrain_loop deps acc = Inr out \<Longrightarrow>
   map fst out = map fst acc @ filter (\<lambda>k. k \<noteq> ''python'') (map fst deps) \<and>
   (\<forall>(k, c) \<in> set out. (k, c) \<in> set acc \<or> (\<exists>v. (k, v) \<in> set deps \<and> constraint_of v = Inr c))"
proof (induction deps acc arbitrary: out rule: constrain_loop.induct)
  case (1 acc)
  then show ?case by auto
next
  case (2 package version rest acc)
  show ?case
  proof (cases "package = ''python''")
    case True
    with "2.prems" "2.IH"(2)[of out] show ?thesis by auto
  next
    case False
    with "2.prems" obtain c where c: "constraint_of version = Inr c"
      and r: "constrain_loop rest (dict_set acc package c) = Inr out"
      by (auto split: sum.splits)
    from "2.prems"(1) False have fresh: "package \<notin> fst ` set acc" by auto
    then have ds: "dict_set acc package c = acc @ [(package, c)]" by (rule dict_set_fresh)
    from "2.prems"(1) False
    have "distinct (map fst (dict_set acc package c) @ filter (\<lambda>k. k \<noteq> ''python'') (map fst rest))"
      by (auto simp: ds)
    from "2.IH"(1)[OF False c this r] False c show ?thesis
      by (auto simp: ds)
  qed
qed

lemma constrain_loop_succeeds:
  "\<forall>(k, v) \<in> set deps. k \<noteq> ''python'' \<longrightarrow> (\<exists>c. constraint_of v = Inr c) \<Longrightarrow>
   \<exists>out. constrain_loop deps acc = Inr out"
  by (induction deps acc rule: constrain_loop.induct) (auto split: sum.splits)

subsection \<open>Splitting and joining\<close>

lemma split_on_nonempty [simp]: "split_on sep s \<noteq> []"
  by (induction s) auto

lemma join_split_on: "join [sep] (split_on sep s) = s"
proof (induction s)
  case Nil
  show ?case by simp
next
  case (Cons c cs)
  obtain w ws where w: "split_on sep cs = w # ws"
    by (cases "split_on sep cs") auto
  with Cons show ?case by (cases ws) auto
qed

lemma length_split_on: "length (split_on sep s) = Suc (count_list s sep)"
  by (induction s) (auto simp: Suc_pred length_greater_0_conv)

lemma split_on_append:
  "split_on sep (s @ sep # t) = split_on sep s @ split_on sep t"
  by (induction s) auto

lemma split_on_absent: "sep \<notin> set s \<Longrightarrow> split_on sep s = [s]"
  by (induction s) auto

lemma split_on_join_Cons:
  "\<forall>y \<in> set (x # xs). sep \<notin> set y \<Longrightarrow> split_on sep (join [sep] (x # xs)) = x # xs"
proof (induction xs arbitrary: x)
  case Nil
  then show ?case by (simp add: split_on_absent)
next
  case (Cons y ys)
  from Cons.prems have "split_on sep (join [sep] (y # ys)) = y # ys"
    by (intro Cons.IH) simp
  with Cons.prems show ?case
    by (simp add: split_on_append split_on_absent)
qed

subsection \<open>Digits and decimal numerals\<close>

lemma dot_not_digit [simp]: "\<not> is_digit CHR ''.''"
  by (simp add: is_digit_def)

lemma is_number_no_dot: "is_number s \<Longrightarrow> CHR ''.'' \<notin> set s"
  by (auto simp: is_number_def list_all_iff)

lemma findall_number: "is_number s \<Longrightarrow> findall_digits s = [s]"
  by (cases s)
     (auto simp: is_number_def list_all_iff takeWhile_eq_all_conv[THEN iffD2]
        dropWhile_eq_Nil_conv[THEN iffD2])

lemma findall_number_dot:
  "is_number s \<Longrightarrow> findall_digits (s @ CHR ''.'' # rest) = s # findall_digits rest"
  by (cases s) (auto simp: is_number_def list_all_iff takeWhile_append2 dropWhile_append2)

lemma digit_char_is_digit: "d < 10 \<Longrightarrow> is_digit (digit_char d)"
proof -
  assume "d < 10"
  then have "d \<in> {0, 1, 2, 3, 4, 5, 6, 7, 8, 9}" by auto
  then show ?thesis by (auto simp: digit_char_def is_digit_def)
qed

lemma digit_val_digit_char: "d < 10 \<Longrightarrow> digit_val (digit_char d) = d"
proof -
  assume "d < 10"
  then have "d \<in> {0, 1, 2, 3, 4, 5, 6, 7, 8, 9}" by auto
  then show ?thesis by (auto simp: digit_char_def digit_val_def)
qed

lemma is_number_str_nat: "is_number (str_nat n)"
proof (induction n rule: str_nat.induct)
  case (1 n)
  show ?case
  proof (cases "n < 10")
    case True
    then show ?thesis by (simp add: str_nat.simps[of n] is_number_def digit_char_is_digit)
  next
    case False
    with 1 show ?thesis
      by (simp add: str_nat.simps[of n] is_number_def digit_char_is_digit)
  qed
qed

lemma foldl_str_nat: "foldl (\<lambda>a c. 10 * a + digit_val c) 0 (str_nat n) = n"
proof (induction n rule: str_nat.induct)
  case (1 n)
  show ?case
  proof (cases "n < 10")
    case True
    then show ?thesis by (simp add: str_nat.simps[of n] digit_val_digit_char)
  next
    case False
    with 1 show ?thesis
      by (simp add: str_nat.simps[of n] digit_val_digit_char)
  qed
qed

lemma is_number_str: "0 \<le> i \<Longrightarrow> is_number (str i)"
  by (simp add: str_def is_number_str_nat)

lemma int_of_digits_str: "0 \<le> i \<Longrightarrow> int_of_digits (str i) = i"
  by (simp add: str_def int_of_digits_def foldl_str_nat)

subsection \<open>Well-formed version bodies\<close>

lemma valid_body_cases:
  assumes "valid_body s"
  obtains a where "is_number a" "s = a"
  | a b where "is_number a" "is_number b" "s = a @ CHR ''.'' # b"
  | a b c where "is_number a" "is_number b" "is_number c" "s = a @ CHR ''.'' # b @ CHR ''.'' # c"
proof -
  let ?xs = "split_on CHR ''.'' s"
  from assms have len: "length ?xs \<le> 3" and num: "list_all is_number ?xs"
    by (simp_all add: valid_body_def)
  have s: "s = join ''.'' ?xs" by (simp add: join_split_on)
  obtain a r1 where r1: "?xs = a # r1" by (cases ?xs) auto
  show thesis
  proof (cases r1)
    case Nil
    with r1 num s have "is_number a" "s = a" by simp_all
    then show thesis by (rule that(1))
  next
    case (Cons b r2)
    note c1 = Cons
    show thesis
    proof (cases r2)
      case Nil
      with r1 c1 num s have "is_number a" "is_number b" "s = a @ CHR ''.'' # b" by simp_all
      then show thesis by (rule that(2))
    next
      case (Cons c r3)
      with r1 c1 len have "r3 = []" by simp
      with r1 c1 Cons num s
      have "is_number a" "is_number b" "is_number c" "s = a @ CHR ''.'' # b @ CHR ''.'' # c"
        by simp_all
      then show thesis by (rule that(3))
    qed
  qed
qed

lemma bump_three:
  "0 \<le> n0 \<Longrightarrow> 0 \<le> n1 \<Longrightarrow> 0 \<le> n2 \<Longrightarrow>
   bump 0 [n0, n1, n2] = Inr (spec_upper_bound [n0, n1, n2])"
  by (simp add: bump.simps[of 0] bump.simps[of "Suc 0"] bump.simps[of "Suc (Suc 0)"]
      bump.simps[of "Suc (Suc (Suc 0))"]
      zero_after_def spec_upper_bound_def leftmost_nonzero_def upt_rec[of 0] upt_rec[of "Suc 0"] 
      upt_rec[of "Suc (Suc 0)"] upt_rec[of "Suc (Suc (Suc 0))"] numeral_3_eq_3 numeral_2_eq_2)

lemma int_of_digits_nonneg: "0 \<le> int_of_digits s"
  by (simp add: int_of_digits_def)

lemma str_times_simps:
  "str_times s 0 = []" "str_times s 1 = s" "str_times s 2 = s @ s"
  by (simp_all add: str_times_def numeral_2_eq_2)

lemma count_char_number: "is_number a \<Longrightarrow> count_list a CHR ''.'' = 0"
  by (simp add: is_number_no_dot)

lemma is_number_zero: "is_number ''0''"
  by (simp add: is_number_def is_digit_def)

lemma lower_bound_valid:
  assumes "valid_body s"
  obtains a b c where "is_number a" "is_number b" "is_number c"
    "lower_bound s = a @ CHR ''.'' # b @ CHR ''.'' # c"
    "s = a \<or> s = a @ CHR ''.'' # b \<or> s = a @ CHR ''.'' # b @ CHR ''.'' # c"
  using assms
proof (cases rule: valid_body_cases)
  case (1 a)
  then have "lower_bound s = a @ CHR ''.'' # ''0'' @ CHR ''.'' # ''0''"
    by (simp add: lower_bound_def count_char_def count_char_number str_times_simps)
  with 1 is_number_zero that show ?thesis by blast
next
  case (2 a b)
  then have "lower_bound s = a @ CHR ''.'' # b @ CHR ''.'' # ''0''"
    by (simp add: lower_bound_def count_char_def count_char_number str_times_simps)
  with 2 is_number_zero that show ?thesis by blast
next
  case (3 a b c)
  then have "lower_bound s = a @ CHR ''.'' # b @ CHR ''.'' # c"
    by (simp add: lower_bound_def count_char_def count_char_number str_times_simps)
  with 3 that show ?thesis by blast
qed

lemma numbers_three:
  "is_number a \<Longrightarrow> is_number b \<Longrightarrow> is_number c \<Longrightarrow>
   numbers (a @ CHR ''.'' # b @ CHR ''.'' # c) = [int_of_digits a, int_of_digits b, int_of_digits c]"
  by (simp add: numbers_def findall_number_dot findall_number)

lemma components_three:
  "is_number a \<Longrightarrow> is_number b \<Longrightarrow> is_number c \<Longrightarrow>
   split_on CHR ''.'' (a @ CHR ''.'' # b @ CHR ''.'' # c) = [a, b, c]"
  by (simp add: split_on_append split_on_absent is_number_no_dot)

lemma lstrip_valid: "valid_body s \<Longrightarrow> lstrip (CHR ''^'' # s) ''^'' = s"
proof -
  assume "valid_body s"
  then obtain a r where "is_number a" "s = a @ r"
    by (cases rule: valid_body_cases) auto
  then obtain d r' where "s = d # r'" "is_digit d"
    by (cases a) (auto simp: is_number_def)
  then show ?thesis by (auto simp: lstrip_def is_digit_def)
qed

lemma valid_body_chars: "valid_body s \<Longrightarrow> c \<in> set s \<Longrightarrow> is_digit c \<or> c = CHR ''.''"
  by (cases rule: valid_body_cases) (auto simp: is_number_def list_all_iff)

lemma upper_bound_three:
  "upper_bound [m0, m1, m2] = str m0 @ CHR ''.'' # str m1 @ CHR ''.'' # str m2"
  by (simp add: upper_bound_def)

lemma spec_upper_bound_three:
  "0 \<le> n0 \<Longrightarrow> 0 \<le> n1 \<Longrightarrow> 0 \<le> n2 \<Longrightarrow>
   \<exists>m0 m1 m2. spec_upper_bound [n0, n1, n2] = [m0, m1, m2] \<and> 0 \<le> m0 \<and> 0 \<le> m1 \<and> 0 \<le> m2 \<and>
     lexordp_eq [n0, n1, n2] [m0, m1, m2]"
  by (simp add: spec_upper_bound_def leftmost_nonzero_def upt_rec[of 0] upt_rec[of "Suc 0"] 
      upt_rec[of "Suc (Suc 0)"] upt_rec[of "Suc (Suc (Suc 0))"] numeral_3_eq_3 numeral_2_eq_2)

subsection \<open>The caret expansion on well-formed input\<close>

lemma bump_nonempty: "ns \<noteq> [] \<Longrightarrow> \<exists>r. bump index ns = Inr r"
proof (induction index ns rule: bump.induct)
  case (1 index ns)
  then show ?case by (subst bump.simps) auto
qed

lemma findall_digits_nonempty: "\<exists>c \<in> set s. is_digit c \<Longrightarrow> findall_digits s \<noteq> []"
  by (induction s rule: findall_digits.induct) auto

lemma caret_unfold:
  "bump 0 (numbers (lower_bound (lstrip v ''^''))) = Inr ns \<Longrightarrow>
   caret v = Inr (''>='' @ lower_bound (lstrip v ''^'') @ '', <'' @ upper_bound ns)"
  by (simp add: caret_def Let_def)

lemma caret_valid:
  assumes "valid_caret v"
  obtains a b c m0 m1 m2 where
    "is_number a" "is_number b" "is_number c"
    "lower_bound (lstrip v ''^'') = a @ CHR ''.'' # b @ CHR ''.'' # c"
    "numbers (lower_bound (lstrip v ''^'')) = [int_of_digits a, int_of_digits b, int_of_digits c]"
    "bump 0 (numbers (lower_bound (lstrip v ''^''))) = Inr [m0, m1, m2]"
    "0 \<le> m0" "0 \<le> m1" "0 \<le> m2"
    "lexordp_eq [int_of_digits a, int_of_digits b, int_of_digits c] [m0, m1, m2]"
proof -
  from assms obtain s where v: "v = CHR ''^'' # s" and s: "valid_body s"
    by (auto simp: valid_caret_def split: list.splits)
  from s have ls: "lstrip v ''^'' = s" unfolding v by (rule lstrip_valid)
  from s obtain a b c where abc: "is_number a" "is_number b" "is_number c"
    and lb: "lower_bound s = a @ CHR ''.'' # b @ CHR ''.'' # c"
    by (rule lower_bound_valid)
  from abc have nums: "numbers (lower_bound s) = [int_of_digits a, int_of_digits b, int_of_digits c]"
    unfolding lb by (rule numbers_three)
  have nn: "0 \<le> int_of_digits a" "0 \<le> int_of_digits b" "0 \<le> int_of_digits c"
    by (rule int_of_digits_nonneg)+
  from spec_upper_bound_three[OF nn] obtain m0 m1 m2 where
    m: "spec_upper_bound [int_of_digits a, int_of_digits b, int_of_digits c] = [m0, m1, m2]"
      "0 \<le> m0" "0 \<le> m1" "0 \<le> m2"
      "lexordp_eq [int_of_digits a, int_of_digits b, int_of_digits c] [m0, m1, m2]"
    by blast
  from bump_three[OF nn] m(1) nums
  have b: "bump 0 (numbers (lower_bound s)) = Inr [m0, m1, m2]" by simp
  from abc lb nums b m(2-5) show thesis unfolding ls[symmetric] by (rule that)
qed

subsection \<open>The loop and its relation\<close>

lemma entry_step_deterministic:
  "entry_step x acc r1 \<Longrightarrow> entry_step x acc r2 \<Longrightarrow> r1 = r2"
  by (auto elim!: entry_step.cases)

lemma constrain_run_deterministic:
  "constrain_run deps acc r1 \<Longrightarrow> constrain_run deps acc r2 \<Longrightarrow> r1 = r2"
proof (induction arbitrary: r2 rule: constrain_run.induct)
  case (finished acc)
  then show ?case by (auto elim: constrain_run.cases)
next
  case (continue entry acc acc' rest r)
  from continue.prems show ?case
  proof (cases rule: constrain_run.cases)
    case (continue acc'')
    with continue.hyps(1) have "acc'' = acc'" by (auto dest: entry_step_deterministic)
    with continue show ?thesis by (auto intro: continue.IH)
  next
    case (abort e)
    with continue.hyps(1) show ?thesis by (auto dest: entry_step_deterministic)
  qed
next
  case (abort entry acc e rest)
  from abort.prems show ?case
  proof (cases rule: constrain_run.cases)
    case (continue acc'')
    with abort.hyps show ?thesis by (auto dest: entry_step_deterministic)
  next
    case (abort e')
    with abort.hyps show ?thesis by (auto dest: entry_step_deterministic)
  qed
qed

lemma constrain_run_loop: "constrain_run deps acc (constrain_loop deps acc)"
proof (induction deps acc rule: constrain_loop.induct)
  case (1 acc)
  show ?case by (simp add: constrain_run.finished)
next
  case (2 package version rest acc)
  show ?case
  proof (cases "package = ''python''")
    case True
    with 2 show ?thesis by (auto intro: constrain_run.continue entry_step.skip)
  next
    case False
    show ?thesis
    proof (cases "constraint_of version")
      case (Inl e)
      with False show ?thesis by (auto intro: constrain_run.abort entry_step.raise)
    next
      case (Inr c)
      with False "2.IH"(1)[OF False Inr] show ?thesis
        by (auto intro: constrain_run.continue entry_step.store)
    qed
  qed
qed

lemma constrain_single:
  "p \<noteq> ''python'' \<Longrightarrow> constraint_of v = Inr c \<Longrightarrow> constrain [(p, v)] = Inr [(p, c)]"
  by (simp add: constrain_def)

section \<open>The claims\<close>

text \<open>
  Claim C1. When the integers found in the padded lower bound of a caret constraint are
  exactly three, \<open>n0\<close>, \<open>n1\<close> and \<open>n2\<close>, the loop of \<^verbatim>\<open>caret\<close> computes the upper
  bound of the specification: the leftmost non-zero component grows by one and the
  components behind it become zero, and when all three are zero the last one grows by
  one, which gives \<^verbatim>\<open>0.0.1\<close>. The result is the string
  \<^verbatim>\<open>>=<lower_bound>, <<upper_bound>\<close>, also as the value of the package in the output
  of \<^verbatim>\<open>constrain\<close>; \<^verbatim>\<open>{"pkg": "^1.2.3"}\<close> becomes \<^verbatim>\<open>{"pkg": ">=1.2.3, <2.0.0"}\<close>.
\<close>

theorem caret_three_components:
  assumes "numbers (lower_bound (lstrip v ''^'')) = [n0, n1, n2]"
  shows "bump 0 [n0, n1, n2] = Inr (spec_upper_bound [n0, n1, n2]) \<and>
    caret v = Inr (''>='' @ lower_bound (lstrip v ''^'') @ '', <'' @
                   upper_bound (spec_upper_bound [n0, n1, n2])) \<and>
    (startswith v ''^'' \<and> p \<noteq> ''python'' \<longrightarrow>
       constrain [(p, v)] = Inr [(p, ''>='' @ lower_bound (lstrip v ''^'') @ '', <'' @
                   upper_bound (spec_upper_bound [n0, n1, n2]))]) \<and>
    (n0 = 0 \<and> n1 = 0 \<and> n2 = 0 \<longrightarrow> upper_bound (spec_upper_bound [n0, n1, n2]) = ''0.0.1'') \<and>
    constrain [(''pkg'', ''^1.2.3'')] = Inr [(''pkg'', ''>=1.2.3, <2.0.0'')]"
proof -
  from assms have "n0 = int_of_digits (findall_digits (lower_bound (lstrip v ''^'')) ! 0)"
    "n1 = int_of_digits (findall_digits (lower_bound (lstrip v ''^'')) ! 1)"
    "n2 = int_of_digits (findall_digits (lower_bound (lstrip v ''^'')) ! 2)"
    by (auto simp: numbers_def map_eq_Cons_conv)
  then have nn: "0 \<le> n0" "0 \<le> n1" "0 \<le> n2"
    by (simp_all add: int_of_digits_nonneg)
  then have b: "bump 0 [n0, n1, n2] = Inr (spec_upper_bound [n0, n1, n2])"
    by (rule bump_three)
  with assms have c: "caret v = Inr (''>='' @ lower_bound (lstrip v ''^'') @ '', <'' @
                   upper_bound (spec_upper_bound [n0, n1, n2]))"
    by (simp add: caret_unfold)
  have z: "upper_bound (spec_upper_bound [0, 0, 0]) = ''0.0.1''"
    by code_simp
  have e: "constrain [(''pkg'', ''^1.2.3'')] = Inr [(''pkg'', ''>=1.2.3, <2.0.0'')]"
    by code_simp
  from c have k: "startswith v ''^'' \<and> p \<noteq> ''python'' \<longrightarrow>
       constrain [(p, v)] = Inr [(p, ''>='' @ lower_bound (lstrip v ''^'') @ '', <'' @
                   upper_bound (spec_upper_bound [n0, n1, n2]))]"
    by (simp add: constrain_def constraint_of_def)
  from b c k z e show ?thesis by blast
qed

text \<open>The theorem at the constraint \<^verbatim>\<open>^0.2.3\<close>.\<close>

theorem caret_three_components_witness:
  "numbers (lower_bound (lstrip ''^0.2.3'' ''^'')) = [0, 2, 3] \<and>
   caret ''^0.2.3'' = Inr ''>=0.2.3, <0.3.0'' \<and>
   constrain [(''requests'', ''^0.2.3'')] = Inr [(''requests'', ''>=0.2.3, <0.3.0'')]"
proof -
  have h: "numbers (lower_bound (lstrip ''^0.2.3'' ''^'')) = [0, 2, 3]"
    by code_simp
  have s: "startswith ''^0.2.3'' ''^'' \<and> ''requests'' \<noteq> ''python''"
    by code_simp
  have u: "''>='' @ lower_bound (lstrip ''^0.2.3'' ''^'') @ '', <'' @
      upper_bound (spec_upper_bound [0, 2, 3]) = ''>=0.2.3, <0.3.0''"
    by code_simp
  from caret_three_components[OF h, of "''requests''"] s h show ?thesis
    unfolding u by blast
qed

text \<open>
  Claim C2. For a valid caret input, a caret followed by one to three dot-separated
  non-negative integers, \<^verbatim>\<open>caret\<close> returns, and the three components of its lower
  bound are lexicographically less than or equal to the three components of its upper
  bound, compared as integers from the left. The components are read off the two strings
  of the result; they are the lists \<^verbatim>\<open>numbers\<close> before and after the loop.
\<close>

theorem caret_lower_le_upper:
  assumes "valid_caret v"
  shows "\<exists>ns. bump 0 (numbers (lower_bound (lstrip v ''^''))) = Inr ns \<and>
    caret v = Inr (''>='' @ lower_bound (lstrip v ''^'') @ '', <'' @ upper_bound ns) \<and>
    version_components (lower_bound (lstrip v ''^'')) = numbers (lower_bound (lstrip v ''^'')) \<and>
    version_components (upper_bound ns) = ns \<and>
    length (version_components (lower_bound (lstrip v ''^''))) = 3 \<and>
    length (version_components (upper_bound ns)) = 3 \<and>
    lexordp_eq (version_components (lower_bound (lstrip v ''^'')))
               (version_components (upper_bound ns))"
proof -
  let ?lb = "lower_bound (lstrip v ''^'')"
  from assms obtain a b c m0 m1 m2 where
    abc: "is_number a" "is_number b" "is_number c"
    and lb: "?lb = a @ CHR ''.'' # b @ CHR ''.'' # c"
    and nums: "numbers ?lb = [int_of_digits a, int_of_digits b, int_of_digits c]"
    and b: "bump 0 (numbers ?lb) = Inr [m0, m1, m2]"
    and m: "0 \<le> m0" "0 \<le> m1" "0 \<le> m2"
    and le: "lexordp_eq [int_of_digits a, int_of_digits b, int_of_digits c] [m0, m1, m2]"
    by (rule caret_valid)
  from abc have lc: "version_components ?lb = [int_of_digits a, int_of_digits b, int_of_digits c]"
    unfolding lb by (simp add: version_components_def components_three)
  from m have "split_on CHR ''.'' (upper_bound [m0, m1, m2]) = [str m0, str m1, str m2]"
    unfolding upper_bound_three by (intro components_three is_number_str)
  with m have uc: "version_components (upper_bound [m0, m1, m2]) = [m0, m1, m2]"
    by (simp add: version_components_def int_of_digits_str)
  from b have c: "caret v = Inr (''>='' @ ?lb @ '', <'' @ upper_bound [m0, m1, m2])"
    by (rule caret_unfold)
  from b c lc uc nums le show ?thesis by simp
qed

text \<open>The theorem at the constraint \<^verbatim>\<open>^0.9\<close>, where the order of the integers and the order of the strings differ.\<close>

theorem caret_lower_le_upper_witness:
  "valid_caret ''^0.9'' \<and> caret ''^0.9'' = Inr ''>=0.9.0, <0.10.0'' \<and>
   version_components ''0.9.0'' = [0, 9, 0] \<and> version_components ''0.10.0'' = [0, 10, 0] \<and>
   lexordp_eq (version_components ''0.9.0'') (version_components ''0.10.0'')"
proof -
  have h: "valid_caret ''^0.9''" by code_simp
  have l: "lower_bound (lstrip ''^0.9'' ''^'') = ''0.9.0''" by code_simp
  have n: "bump 0 (numbers ''0.9.0'') = Inr [0, 10, 0]" by code_simp
  have u: "upper_bound [0, 10, 0] = ''0.10.0''" by code_simp
  have lc: "version_components ''0.9.0'' = [0, 9, 0]" by code_simp
  from caret_lower_le_upper[OF h] obtain ns where
    "bump 0 (numbers ''0.9.0'') = Inr ns"
    "caret ''^0.9'' = Inr (''>='' @ ''0.9.0'' @ '', <'' @ upper_bound ns)"
    "version_components (upper_bound ns) = ns"
    "lexordp_eq (version_components ''0.9.0'') (version_components (upper_bound ns))"
    unfolding l by blast
  with n u have "caret ''^0.9'' = Inr (''>='' @ ''0.9.0'' @ '', <'' @ ''0.10.0'')"
    "version_components ''0.10.0'' = [0, 10, 0]"
    "lexordp_eq (version_components ''0.9.0'') (version_components ''0.10.0'')"
    by auto
  with h lc show ?thesis by simp
qed

text \<open>
  Claim C10. For a valid caret input the upper bound that \<^verbatim>\<open>caret\<close> formats has
  exactly three dot-separated components, each a non-negative integer: the zeros behind
  the incremented position are written out. The constraint \<^verbatim>\<open>^1\<close> gives the upper
  bound \<^verbatim>\<open>2.0.0\<close>.
\<close>

theorem caret_upper_three_components:
  assumes "valid_caret v"
  shows "(\<exists>ns. bump 0 (numbers (lower_bound (lstrip v ''^''))) = Inr ns \<and>
      caret v = Inr (''>='' @ lower_bound (lstrip v ''^'') @ '', <'' @ upper_bound ns) \<and>
      length ns = 3 \<and>
      split_on CHR ''.'' (upper_bound ns) = map str ns \<and>
      length (split_on CHR ''.'' (upper_bound ns)) = 3 \<and>
      list_all is_number (split_on CHR ''.'' (upper_bound ns))) \<and>
    caret ''^1'' = Inr ''>=1.0.0, <2.0.0''"
proof -
  let ?lb = "lower_bound (lstrip v ''^'')"
  from assms obtain a b c m0 m1 m2 where
    b: "bump 0 (numbers ?lb) = Inr [m0, m1, m2]"
    and m: "0 \<le> m0" "0 \<le> m1" "0 \<le> m2"
    by (rule caret_valid)
  from m have s: "split_on CHR ''.'' (upper_bound [m0, m1, m2]) = [str m0, str m1, str m2]"
    unfolding upper_bound_three by (intro components_three is_number_str)
  from b have c: "caret v = Inr (''>='' @ ?lb @ '', <'' @ upper_bound [m0, m1, m2])"
    by (rule caret_unfold)
  have e: "caret ''^1'' = Inr ''>=1.0.0, <2.0.0''" by code_simp
  from b c s m e show ?thesis by (simp add: is_number_str)
qed

text \<open>The theorem at the constraint \<^verbatim>\<open>^0.0.3\<close>.\<close>

theorem caret_upper_three_components_witness:
  "valid_caret ''^0.0.3'' \<and> caret ''^0.0.3'' = Inr ''>=0.0.3, <0.0.4'' \<and>
   split_on CHR ''.'' ''0.0.4'' = [''0'', ''0'', ''4'']"
proof -
  have h: "valid_caret ''^0.0.3''" by code_simp
  have l: "lower_bound (lstrip ''^0.0.3'' ''^'') = ''0.0.3''" by code_simp
  have n: "bump 0 (numbers ''0.0.3'') = Inr [0, 0, 4]" by code_simp
  have u: "upper_bound [0, 0, 4] = ''0.0.4''" "map str [0, 0, 4] = [''0'', ''0'', ''4'']"
    by code_simp+
  from caret_upper_three_components[OF h] obtain ns where
    "bump 0 (numbers ''0.0.3'') = Inr ns"
    "caret ''^0.0.3'' = Inr (''>='' @ ''0.0.3'' @ '', <'' @ upper_bound ns)"
    "split_on CHR ''.'' (upper_bound ns) = map str ns"
    unfolding l by blast
  with n u h show ?thesis by auto
qed

text \<open>
  Claim C3. A caret constraint whose body has fewer than three dot-separated components:
  \<^verbatim>\<open>caret\<close> appends \<^verbatim>\<open>.0\<close> to the body until it has exactly three components, the
  appended ones being \<^verbatim>\<open>0\<close>, and the padded string is the lower bound of the result as
  it stands. The body is what follows the caret and does not start with a caret itself
  (the source strips every leading caret). \<^verbatim>\<open>{"pkg": "^1.2"}\<close> becomes
  \<^verbatim>\<open>{"pkg": ">=1.2.0, <2.0.0"}\<close>, and \<^verbatim>\<open>^1\<close> has the lower bound \<^verbatim>\<open>1.0.0\<close> and the
  upper bound \<^verbatim>\<open>2.0.0\<close>.
\<close>

theorem caret_padding:
  assumes "v = CHR ''^'' # body" and "\<not> startswith body ''^''"
    and "length (split_on CHR ''.'' body) < 3"
  shows "lstrip v ''^'' = body \<and>
    lower_bound body = body @ concat (replicate (3 - length (split_on CHR ''.'' body)) ''.0'') \<and>
    split_on CHR ''.'' (lower_bound body) =
      split_on CHR ''.'' body @ replicate (3 - length (split_on CHR ''.'' body)) ''0'' \<and>
    length (split_on CHR ''.'' (lower_bound body)) = 3 \<and>
    (\<exists>ns. bump 0 (numbers (lower_bound body)) = Inr ns \<and>
       caret v = Inr (''>='' @ lower_bound body @ '', <'' @ upper_bound ns)) \<and>
    constrain [(''pkg'', ''^1.2'')] = Inr [(''pkg'', ''>=1.2.0, <2.0.0'')] \<and>
    caret ''^1'' = Inr ''>=1.0.0, <2.0.0''"
proof -
  let ?n = "count_list body CHR ''.''"
  from assms(2) have ls: "lstrip v ''^'' = body"
    unfolding assms(1) by (cases body) (auto simp: lstrip_def startswith_def)
  have len: "length (split_on CHR ''.'' body) = Suc ?n" by (rule length_split_on)
  with assms(3) have n: "?n = 0 \<or> ?n = 1" by auto
  have z: "split_on CHR ''.'' ''0'' = [''0'']" "split_on CHR ''.'' ''0.0'' = [''0'', ''0'']"
    by simp_all
  from n have lb: "lower_bound body = body @ concat (replicate (3 - Suc ?n) ''.0'')"
    by (auto simp: lower_bound_def count_char_def str_times_def numeral_2_eq_2)
  from n have sp: "split_on CHR ''.'' (lower_bound body) =
      split_on CHR ''.'' body @ replicate (3 - Suc ?n) ''0''"
    unfolding lb by (auto simp: split_on_append numeral_2_eq_2)
  have "length (split_on CHR ''.'' (lower_bound body)) = Suc ?n + (3 - Suc ?n)"
    by (simp only: sp length_append len length_replicate)
  with n have l3: "length (split_on CHR ''.'' (lower_bound body)) = 3"
    by arith
  from n have "CHR ''0'' \<in> set (lower_bound body)"
    unfolding lb by (auto simp: numeral_2_eq_2)
  moreover have "is_digit CHR ''0''"
    by (simp add: is_digit_def)
  ultimately have "\<exists>c \<in> set (lower_bound body). is_digit c"
    by blast
  then have "numbers (lower_bound body) \<noteq> []"
    by (simp add: numbers_def findall_digits_nonempty)
  then obtain ns where b: "bump 0 (numbers (lower_bound body)) = Inr ns"
    using bump_nonempty by blast
  then have "bump 0 (numbers (lower_bound (lstrip v ''^''))) = Inr ns"
    by (simp only: ls)
  then have "caret v = Inr (''>='' @ lower_bound (lstrip v ''^'') @ '', <'' @ upper_bound ns)"
    by (rule caret_unfold)
  then have c: "caret v = Inr (''>='' @ lower_bound body @ '', <'' @ upper_bound ns)"
    by (simp only: ls)
  have e1: "constrain [(''pkg'', ''^1.2'')] = Inr [(''pkg'', ''>=1.2.0, <2.0.0'')]"
    by code_simp
  have e2: "caret ''^1'' = Inr ''>=1.0.0, <2.0.0''"
    by code_simp
  from b c have ex: "\<exists>ns. bump 0 (numbers (lower_bound body)) = Inr ns \<and>
       caret v = Inr (''>='' @ lower_bound body @ '', <'' @ upper_bound ns)"
    by blast
  from lb have lb': "lower_bound body =
      body @ concat (replicate (3 - length (split_on CHR ''.'' body)) ''.0'')"
    by (simp only: len)
  from sp have sp': "split_on CHR ''.'' (lower_bound body) =
      split_on CHR ''.'' body @ replicate (3 - length (split_on CHR ''.'' body)) ''0''"
    by (simp only: len)
  show ?thesis
    by (intro conjI) (rule ls lb' sp' l3 ex e1 e2)+
qed

text \<open>The theorem at the constraint \<^verbatim>\<open>^0.4\<close>.\<close>

theorem caret_padding_witness:
  "\<not> startswith ''0.4'' ''^'' \<and> length (split_on CHR ''.'' ''0.4'') < 3 \<and>
   lower_bound ''0.4'' = ''0.4.0'' \<and> caret ''^0.4'' = Inr ''>=0.4.0, <0.5.0''"
proof -
  have h: "''^0.4'' = CHR ''^'' # ''0.4''" "\<not> startswith ''0.4'' ''^''"
    "length (split_on CHR ''.'' ''0.4'') < 3"
    by code_simp+
  have l: "''0.4'' @ concat (replicate (3 - length (split_on CHR ''.'' ''0.4'')) ''.0'') = ''0.4.0''"
    by code_simp
  have n: "bump 0 (numbers ''0.4.0'') = Inr [0, 5, 0]" by code_simp
  have u: "upper_bound [0, 5, 0] = ''0.5.0''" by code_simp
  from caret_padding[OF h] have lb: "lower_bound ''0.4'' = ''0.4.0''"
    unfolding l by blast
  from caret_padding[OF h] obtain ns where
    "bump 0 (numbers ''0.4.0'') = Inr ns"
    "caret ''^0.4'' = Inr (''>='' @ ''0.4.0'' @ '', <'' @ upper_bound ns)"
    unfolding lb by blast
  with n u h lb show ?thesis by auto
qed

text \<open>
  Claim C4. The entry with the key \<^verbatim>\<open>python\<close> is filtered out: \<^verbatim>\<open>constrain\<close> returns
  the same with and without it, whatever its value, and no output has the key
  \<^verbatim>\<open>python\<close>. \<^verbatim>\<open>{"python": "^3.8"}\<close> becomes the empty dictionary.
\<close>

theorem python_excluded:
  "constrain (filter (\<lambda>(k, v). k \<noteq> ''python'') deps) = constrain deps \<and>
   (\<forall>out. constrain deps = Inr out \<longrightarrow> ''python'' \<notin> fst ` set out) \<and>
   constrain [(''python'', ''^3.8'')] = Inr []"
proof -
  have a: "constrain (filter (\<lambda>(k, v). k \<noteq> ''python'') deps) = constrain deps"
    by (simp add: constrain_def constrain_loop_skip_python)
  have b: "\<forall>out. constrain deps = Inr out \<longrightarrow> ''python'' \<notin> fst ` set out"
  proof (intro allI impI)
    fix out
    assume "constrain deps = Inr out"
    then have "constrain_loop deps [] = Inr out"
      by (simp only: constrain_def)
    then have "fst ` set out =
        fst ` set ([] :: (string \<times> string) list) \<union> (fst ` set deps - {''python''})"
      by (rule constrain_loop_keys_subset)
    then show "''python'' \<notin> fst ` set out" by simp
  qed
  have c: "constrain [(''python'', ''^3.8'')] = Inr []"
    by (simp add: constrain_def)
  from a b c show ?thesis by blast
qed

text \<open>The theorem at a dictionary whose \<^verbatim>\<open>python\<close> entry has a value on which \<^verbatim>\<open>caret\<close> would raise.\<close>

theorem python_excluded_witness:
  "constrain [(''python'', ''^..''), (''click'', ''7.1.2'')] = Inr [(''click'', ''==7.1.2'')] \<and>
   constrain [(''click'', ''7.1.2'')] = Inr [(''click'', ''==7.1.2'')] \<and>
   ''python'' \<notin> fst ` set [(''click'', ''==7.1.2'')]"
proof -
  have h: "constrain [(''python'', ''^..''), (''click'', ''7.1.2'')] = Inr [(''click'', ''==7.1.2'')]"
    by code_simp
  have f: "filter (\<lambda>(k, v). k \<noteq> ''python'') [(''python'', ''^..''), (''click'', ''7.1.2'')]
      = [(''click'', ''7.1.2'')]"
    by simp
  from python_excluded[of "[(''python'', ''^..''), (''click'', ''7.1.2'')]"] h
  show ?thesis unfolding f by simp
qed

text \<open>
  Claim C5. For a dictionary, an association list with distinct keys, the keys of the
  output of \<^verbatim>\<open>constrain\<close> are the keys of the input other than \<^verbatim>\<open>python\<close>, each once
  and in the order of the input; an input of N entries without the key \<^verbatim>\<open>python\<close>
  gives an output with the same N keys. There is an output whenever every value is a
  version constraint of the data model.
\<close>

theorem keys_preserved_in_order:
  assumes "distinct (map fst deps)"
  shows "(\<forall>out. constrain deps = Inr out \<longrightarrow>
       map fst out = filter (\<lambda>k. k \<noteq> ''python'') (map fst deps) \<and>
       distinct (map fst out) \<and>
       (''python'' \<notin> set (map fst deps) \<longrightarrow>
          map fst out = map fst deps \<and> length out = length deps)) \<and>
    (list_all (\<lambda>(k, v). version_constraint v) deps \<longrightarrow> (\<exists>out. constrain deps = Inr out))"
proof -
  have a: "\<forall>out. constrain deps = Inr out \<longrightarrow>
       map fst out = filter (\<lambda>k. k \<noteq> ''python'') (map fst deps) \<and>
       distinct (map fst out) \<and>
       (''python'' \<notin> set (map fst deps) \<longrightarrow>
          map fst out = map fst deps \<and> length out = length deps)"
  proof (intro allI impI)
    fix out
    assume r: "constrain deps = Inr out"
    from assms have "distinct (map fst [] @ filter (\<lambda>k. k \<noteq> ''python'') (map fst deps))"
      by simp
    from constrain_loop_closed_form[OF this r[unfolded constrain_def]]
    have k: "map fst out = filter (\<lambda>k. k \<noteq> ''python'') (map fst deps)" by simp
    with assms have d: "distinct (map fst out)" by simp
    have "''python'' \<notin> set (map fst deps) \<longrightarrow>
          map fst out = map fst deps \<and> length out = length deps"
    proof
      assume "''python'' \<notin> set (map fst deps)"
      then have "filter (\<lambda>k. k \<noteq> ''python'') (map fst deps) = map fst deps"
        by (intro filter_True) force
      with k have "map fst out = map fst deps" by simp
      then show "map fst out = map fst deps \<and> length out = length deps"
        by (auto dest: map_eq_imp_length_eq)
    qed
    with k d show "map fst out = filter (\<lambda>k. k \<noteq> ''python'') (map fst deps) \<and>
       distinct (map fst out) \<and>
       (''python'' \<notin> set (map fst deps) \<longrightarrow>
          map fst out = map fst deps \<and> length out = length deps)"
      by blast
  qed
  have ok: "\<exists>c. constraint_of v = Inr c" if "version_constraint v" for v
  proof (cases "startswith v ''^''")
    case True
    with that have "valid_caret v"
      by (auto simp: version_constraint_def valid_tilde_def startswith_def split: list.splits)
    then obtain m0 m1 m2 where "bump 0 (numbers (lower_bound (lstrip v ''^''))) = Inr [m0, m1, m2]"
      by (rule caret_valid)
    then have "caret v = Inr (''>='' @ lower_bound (lstrip v ''^'') @ '', <'' @ upper_bound [m0, m1, m2])"
      by (rule caret_unfold)
    with True show ?thesis by (simp add: constraint_of_def)
  next
    case False
    then show ?thesis by (simp add: constraint_of_def)
  qed
  have b: "list_all (\<lambda>(k, v). version_constraint v) deps \<longrightarrow> (\<exists>out. constrain deps = Inr out)"
  proof
    assume "list_all (\<lambda>(k, v). version_constraint v) deps"
    then have "\<forall>(k, v) \<in> set deps. k \<noteq> ''python'' \<longrightarrow> (\<exists>c. constraint_of v = Inr c)"
      by (auto simp: list_all_iff ok)
    then show "\<exists>out. constrain deps = Inr out"
      unfolding constrain_def by (rule constrain_loop_succeeds)
  qed
  from a b show ?thesis by blast
qed

text \<open>The theorem at a dictionary of three entries, one of them \<^verbatim>\<open>python\<close>.\<close>

theorem keys_preserved_in_order_witness:
  "distinct (map fst [(''toml'', ''^0.10.1''), (''python'', ''^3.8''), (''click'', ''~7.1'')]) \<and>
   list_all (\<lambda>(k, v). version_constraint v)
     [(''toml'', ''^0.10.1''), (''python'', ''^3.8''), (''click'', ''~7.1'')] \<and>
   constrain [(''toml'', ''^0.10.1''), (''python'', ''^3.8''), (''click'', ''~7.1'')]
     = Inr [(''toml'', ''>=0.10.1, <0.11.0''), (''click'', ''~=7.1'')] \<and>
   map fst [(''toml'', ''>=0.10.1, <0.11.0''), (''click'', ''~=7.1'')] = [''toml'', ''click'']"
proof -
  let ?d = "[(''toml'', ''^0.10.1''), (''python'', ''^3.8''), (''click'', ''~7.1'')]"
  have h: "distinct (map fst ?d)" by simp
  have w: "list_all (\<lambda>(k, v). version_constraint v) ?d" by code_simp
  have r: "constrain ?d = Inr [(''toml'', ''>=0.10.1, <0.11.0''), (''click'', ''~=7.1'')]"
    by code_simp
  from keys_preserved_in_order[OF h] r
  have "map fst [(''toml'', ''>=0.10.1, <0.11.0''), (''click'', ''~=7.1'')]
      = filter (\<lambda>k. k \<noteq> ''python'') (map fst ?d)"
    by blast
  with h w r show ?thesis by simp
qed

text \<open>
  Claim C6. A constraint in tilde form, a tilde followed by one to three dot-separated
  non-negative integers, under a key other than \<^verbatim>\<open>python\<close>: the translation is the
  constraint with \<^verbatim>\<open>~=\<close> in the place of the tilde.
  \<^verbatim>\<open>{"pkg": "~1.2.3"}\<close> becomes \<^verbatim>\<open>{"pkg": "~=1.2.3"}\<close>.
\<close>

theorem tilde_translation:
  assumes "valid_tilde v" and "p \<noteq> ''python''"
  shows "constraint_of v = Inr (''~='' @ tl v) \<and>
    constrain [(p, v)] = Inr [(p, ''~='' @ tl v)] \<and>
    constrain [(''pkg'', ''~1.2.3'')] = Inr [(''pkg'', ''~=1.2.3'')]"
proof -
  from assms(1) obtain s where v: "v = CHR ''~'' # s" and s: "valid_body s"
    by (auto simp: valid_tilde_def split: list.splits)
  have "CHR ''~'' \<notin> set s"
  proof
    assume "CHR ''~'' \<in> set s"
    with s have "is_digit CHR ''~'' \<or> CHR ''~'' = CHR ''.''" by (rule valid_body_chars)
    then show False by (simp add: is_digit_def)
  qed
  then have "replace ''~'' ''~='' s = s" by (rule replace_absent)
  then have a: "constraint_of v = Inr (''~='' @ tl v)"
    by (simp add: v constraint_of_def startswith_def)
  from assms(2) a have b: "constrain [(p, v)] = Inr [(p, ''~='' @ tl v)]"
    by (rule constrain_single)
  have c: "constrain [(''pkg'', ''~1.2.3'')] = Inr [(''pkg'', ''~=1.2.3'')]"
    by code_simp
  from a b c show ?thesis by blast
qed

text \<open>The theorem at the entry \<^verbatim>\<open>flask = "~0.12"\<close>.\<close>

theorem tilde_translation_witness:
  "valid_tilde ''~0.12'' \<and> ''flask'' \<noteq> ''python'' \<and>
   constrain [(''flask'', ''~0.12'')] = Inr [(''flask'', ''~=0.12'')]"
proof -
  have h: "valid_tilde ''~0.12''" by code_simp
  have n: "''flask'' \<noteq> ''python''" by simp
  from tilde_translation[OF h n] h n show ?thesis by simp
qed

text \<open>
  Claim C7. A constraint that starts with neither a caret nor a tilde, under a key other
  than \<^verbatim>\<open>python\<close>: the translation is \<^verbatim>\<open>==\<close> followed by the constraint as it is.
  \<^verbatim>\<open>{"pkg": "1.2.3"}\<close> becomes \<^verbatim>\<open>{"pkg": "==1.2.3"}\<close>.
\<close>

theorem exact_pin:
  assumes "\<not> startswith v ''^''" and "\<not> startswith v ''~''" and "p \<noteq> ''python''"
  shows "constraint_of v = Inr (''=='' @ v) \<and>
    constrain [(p, v)] = Inr [(p, ''=='' @ v)] \<and>
    constrain [(''pkg'', ''1.2.3'')] = Inr [(''pkg'', ''==1.2.3'')]"
proof -
  from assms(1,2) have a: "constraint_of v = Inr (''=='' @ v)"
    by (simp add: constraint_of_def)
  from assms(3) a have b: "constrain [(p, v)] = Inr [(p, ''=='' @ v)]"
    by (rule constrain_single)
  have c: "constrain [(''pkg'', ''1.2.3'')] = Inr [(''pkg'', ''==1.2.3'')]"
    by code_simp
  from a b c show ?thesis by blast
qed

text \<open>The theorem at the entry \<^verbatim>\<open>attrs = "2.0b1"\<close>.\<close>

theorem exact_pin_witness:
  "\<not> startswith ''2.0b1'' ''^'' \<and> \<not> startswith ''2.0b1'' ''~'' \<and> ''attrs'' \<noteq> ''python'' \<and>
   constrain [(''attrs'', ''2.0b1'')] = Inr [(''attrs'', ''==2.0b1'')]"
proof -
  have h: "\<not> startswith ''2.0b1'' ''^''" "\<not> startswith ''2.0b1'' ''~''" "''attrs'' \<noteq> ''python''"
    by (simp_all add: startswith_def)
  from exact_pin[OF h] h show ?thesis by simp
qed

text \<open>
  Claim C8. \<^verbatim>\<open>constrain\<close> is deterministic: on every input the loop has a run, and any
  two runs on the same input end in the same outcome, the same keys with the same
  values in the same order, or the same exception. The outcome is the value of the
  function \<open>constrain\<close>.
\<close>

theorem constrain_deterministic:
  "constrain_run deps [] (constrain deps) \<and>
   (\<forall>r1 r2. constrain_run deps [] r1 \<and> constrain_run deps [] r2 \<longrightarrow> r1 = r2)"
proof -
  have "constrain_run deps [] (constrain deps)"
    unfolding constrain_def by (rule constrain_run_loop)
  moreover have "\<forall>r1 r2. constrain_run deps [] r1 \<and> constrain_run deps [] r2 \<longrightarrow> r1 = r2"
    by (blast intro: constrain_run_deterministic)
  ultimately show ?thesis by blast
qed

text \<open>The theorem at a dictionary of two entries, with the run built rule by rule.\<close>

theorem constrain_deterministic_witness:
  "constrain_run [(''python'', ''^3.8''), (''toml'', ''0.10.1'')] [] (Inr [(''toml'', ''==0.10.1'')]) \<and>
   constrain [(''python'', ''^3.8''), (''toml'', ''0.10.1'')] = Inr [(''toml'', ''==0.10.1'')]"
proof -
  let ?d = "[(''python'', ''^3.8''), (''toml'', ''0.10.1'')]"
  have c: "constraint_of ''0.10.1'' = Inr ''==0.10.1''" by code_simp
  have "entry_step (''toml'', ''0.10.1'') [] (Inr (dict_set [] ''toml'' ''==0.10.1''))"
    by (rule entry_step.store) (simp_all add: c)
  then have "constrain_run [(''toml'', ''0.10.1'')] [] (Inr [(''toml'', ''==0.10.1'')])"
    by (auto intro: constrain_run.continue constrain_run.finished)
  moreover have "entry_step (''python'', ''^3.8'') [] (Inr [])"
    by (rule entry_step.skip) simp
  ultimately have h: "constrain_run ?d [] (Inr [(''toml'', ''==0.10.1'')])"
    by (rule constrain_run.continue[rotated])
  from constrain_deterministic[of ?d] h
  have "Inr [(''toml'', ''==0.10.1'')] = constrain ?d" by blast
  with h show ?thesis by simp
qed

text \<open>
  Claim C9. A constraint that starts with a tilde, under a key other than
  \<^verbatim>\<open>python\<close>: the translation has \<^verbatim>\<open>~=\<close> in the place of every tilde of the
  constraint, not of the first one alone. \<^verbatim>\<open>~1.2~3\<close> becomes \<^verbatim>\<open>~=1.2~=3\<close>.
\<close>

theorem tilde_replaces_every_occurrence:
  assumes "startswith v ''~''" and "p \<noteq> ''python''"
  shows "constraint_of v = Inr (concat (map (\<lambda>c. if c = CHR ''~'' then ''~='' else [c]) v)) \<and>
    constrain [(p, v)] = Inr [(p, concat (map (\<lambda>c. if c = CHR ''~'' then ''~='' else [c]) v))] \<and>
    constraint_of ''~1.2~3'' = Inr ''~=1.2~=3''"
proof -
  from assms(1) have "\<not> startswith v ''^''"
    by (cases v) (auto simp: startswith_def)
  with assms(1) have a:
    "constraint_of v = Inr (concat (map (\<lambda>c. if c = CHR ''~'' then ''~='' else [c]) v))"
    by (simp add: constraint_of_def replace_single)
  from assms(2) a
  have b: "constrain [(p, v)] = Inr [(p, concat (map (\<lambda>c. if c = CHR ''~'' then ''~='' else [c]) v))]"
    by (rule constrain_single)
  have c: "constraint_of ''~1.2~3'' = Inr ''~=1.2~=3''"
    by code_simp
  from a b c show ?thesis by blast
qed

text \<open>The theorem at the entry \<^verbatim>\<open>six = "~1.4~rc~"\<close>.\<close>

theorem tilde_replaces_every_occurrence_witness:
  "startswith ''~1.4~rc~'' ''~'' \<and> ''six'' \<noteq> ''python'' \<and>
   constrain [(''six'', ''~1.4~rc~'')] = Inr [(''six'', ''~=1.4~=rc~='')]"
proof -
  have h: "startswith ''~1.4~rc~'' ''~''" "''six'' \<noteq> ''python''"
    by (simp_all add: startswith_def)
  from tilde_replaces_every_occurrence[OF h] h show ?thesis by simp
qed

end
